theory Spec2Isabelle
  imports Main "HOL-Library.Word"
begin

section \<open>Data model\<close>

text \<open>
  The embedding covers \<^verbatim>\<open>engine/task/task_processor.cpp\<close> and \<^verbatim>\<open>engine/wait_list.cpp\<close>.
  Both files work on objects whose classes are declared elsewhere (the task context, the
  task counter, the lock-free queue). Whatever the two files do to such an object is
  recorded as a \<open>call\<close> in a chronological log, so that the number and the order of the
  calls can be stated. Logging statements (\<^verbatim>\<open>LOG_TRACE\<close>, \<^verbatim>\<open>LOG_WARNING\<close>) have no
  effect on the program state and are left out.
\<close>

text \<open>A non-null \<^verbatim>\<open>impl::TaskContext*\<close>; \<open>None\<close> is the null pointer.\<close>

type_synonym ctx_ref = nat
type_synonym TaskContext_ptr = "ctx_ref option"

text \<open>
  A \<^verbatim>\<open>std::chrono::steady_clock::time_point\<close>, counted in nanoseconds since the clock's
  epoch; the value-initialised \<^verbatim>\<open>time_point()\<close> is \<open>0\<close>. A
  \<^verbatim>\<open>std::chrono::microseconds\<close> is its count.
\<close>

type_synonym time_point = int
type_synonym microseconds = int

datatype CancellationReason = kUserRequest | kOverload | kShutdown

datatype OverloadAction = kIgnore | kCancel

datatype WakeupSource = kWaitList | kDeadlineTimer | kCancellation

datatype error = AssertionFailed | NullPointerDereference

text \<open>The calls made on collaborators, in the order in which they are made.\<close>

datatype call =
    RequestCancel ctx_ref CancellationReason
  | Wakeup ctx_ref WakeupSource
  | AccountTaskOverload
  | AccountTaskCancelOverload
  | AccountTaskSwitchSlow
  | AddRef ctx_ref
  | Enqueue ctx_ref

text \<open>
  Modelled from the spec: the class \<^verbatim>\<open>impl::TaskContext\<close> (\<^verbatim>\<open>task_context.hpp\<close>) is not
  among the sources. Of a context the two files read \<^verbatim>\<open>IsCritical()\<close> and
  \<^verbatim>\<open>GetQueueWaitTimepoint()\<close>, and store with \<^verbatim>\<open>SetQueueWaitTimepoint(t)\<close>; the
  timepoint is a steady-clock timestamp or the zero sentinel.
\<close>

record TaskContext =
  is_critical :: bool
  queue_wait_timepoint :: time_point

text \<open>
  Modelled from the spec: the members of \<^verbatim>\<open>TaskProcessor\<close> are declared in
  \<^verbatim>\<open>task_processor.hpp\<close>, which is not among the sources; the two counts are taken as
  \<^verbatim>\<open>size_t\<close> (64 bits, wrapping). The state also holds what a call of a member function
  can reach besides the members: \<open>task_count\<close>, the \<^verbatim>\<open>thread_local size_t\<close> of
  \<^verbatim>\<open>SetTaskQueueWaitTimepoint\<close> for the calling thread; \<open>contexts\<close>, the task-context
  objects by address; \<open>calls\<close>, the log of calls made so far.

  \<^verbatim>\<open>is_running_\<close> is written by the destructor on another thread while a worker polls
  it, so each load of it is an input of \<open>DequeueTask\<close> below and not a field.
\<close>

record state =
  is_shutting_down :: bool
  task_queue_size :: "64 word"
  max_task_queue_wait_time :: microseconds
  max_task_queue_wait_length :: "64 word"
  overload_action :: OverloadAction
  task_queue_wait_time_overloaded :: bool
  task_count :: "64 word"
  contexts :: "ctx_ref \<Rightarrow> TaskContext"
  calls :: "call list"

definition do_call :: "call \<Rightarrow> state \<Rightarrow> state" where
  "do_call c s = s\<lparr>calls := calls s @ [c]\<rparr>"

text \<open>The calls made between a state and a later one.\<close>

definition new_calls :: "state \<Rightarrow> state \<Rightarrow> call list" where
  "new_calls s s' = drop (length (calls s)) (calls s')"

text \<open>
  The members as the constructor initialises them (lines 15-25), for a thread that has
  not scheduled yet, no context critical and every timepoint the sentinel.
\<close>

definition TaskProcessor_init :: state where
  "TaskProcessor_init =
     \<lparr>is_shutting_down = False,
      task_queue_size = 0,
      max_task_queue_wait_time = 0,
      max_task_queue_wait_length = 0,
      overload_action = kIgnore,
      task_queue_wait_time_overloaded = False,
      task_count = 0,
      contexts = (\<lambda>_. \<lparr>is_critical = False, queue_wait_timepoint = 0\<rparr>),
      calls = []\<rparr>"

section \<open>The task processor\<close>

definition kTaskTimestampFrequency :: "64 word" where
  "kTaskTimestampFrequency = 16"

definition SetQueueWaitTimepoint :: "ctx_ref \<Rightarrow> time_point \<Rightarrow> state \<Rightarrow> state" where
  "SetQueueWaitTimepoint context t s =
     s\<lparr>contexts := (contexts s)(context := (contexts s context)\<lparr>queue_wait_timepoint := t\<rparr>)\<rparr>"

text \<open>
  \<^verbatim>\<open>TaskProcessor::SetTaskQueueWaitTimepoint\<close> (lines 58-70). \<open>now\<close> is what
  \<^verbatim>\<open>steady_clock::now()\<close> returns if it is read. The post-increment
  \<^verbatim>\<open>task_count++\<close> tests the old value.
\<close>

definition SetTaskQueueWaitTimepoint :: "ctx_ref \<Rightarrow> time_point \<Rightarrow> state \<Rightarrow> state" where
  "SetTaskQueueWaitTimepoint context now s =
     (let old = task_count s;
          s1 = s\<lparr>task_count := old + 1\<rparr>
      in if old mod kTaskTimestampFrequency = 0
         then SetQueueWaitTimepoint context now s1
         else SetQueueWaitTimepoint context 0 s1)"

text \<open>\<^verbatim>\<open>TaskProcessor::HandleOverload\<close> (lines 145-161).\<close>

definition HandleOverload :: "ctx_ref \<Rightarrow> state \<Rightarrow> state" where
  "HandleOverload context s =
     (let s1 = do_call AccountTaskOverload s
      in if overload_action s1 = kCancel
         then if \<not> is_critical (contexts s1 context)
              then do_call AccountTaskCancelOverload
                     (do_call (RequestCancel context kOverload) s1)
              else s1
         else s1)"

text \<open>
  \<^verbatim>\<open>TaskProcessor::Schedule\<close> (lines 72-94). On a null pointer the assertion fails; with
  assertions compiled out (\<open>ndebug\<close>) the pointer is dereferenced at the latest by
  \<^verbatim>\<open>SetTaskQueueWaitTimepoint\<close>.
\<close>

definition Schedule :: "bool \<Rightarrow> TaskContext_ptr \<Rightarrow> time_point \<Rightarrow> state \<Rightarrow> error + state" where
  "Schedule ndebug ptr now s =
     (case ptr of
        None \<Rightarrow> Inl (if ndebug then NullPointerDereference else AssertionFailed)
      | Some context \<Rightarrow>
          (let s1 = (if max_task_queue_wait_length s \<noteq> 0 \<and> \<not> is_critical (contexts s context) \<and>
                        task_queue_size s \<ge> max_task_queue_wait_length s
                     then HandleOverload context s else s);
               s2 = (if is_shutting_down s1
                     then do_call (RequestCancel context kShutdown) s1 else s1);
               s3 = SetTaskQueueWaitTimepoint context now s2;
               s4 = do_call (AddRef context) s3;
               s5 = s4\<lparr>task_queue_size := task_queue_size s4 + 1\<rparr>
           in Inr (do_call (Enqueue context) s5)))"



text \<open>
  \<^verbatim>\<open>TaskProcessor::DequeueTask\<close> (lines 163-180). One \<open>poll\<close> is one evaluation of the
  loop condition: \<^verbatim>\<open>wait_dequeue_timed\<close> either produces an item, or times out and leaves
  \<^verbatim>\<open>buf\<close> null, and only then \<^verbatim>\<open>is_running_\<close> is loaded (\<open>TimedOut r\<close> carries the loaded
  value). The loop can poll forever; the result is \<open>None\<close> when the given polls end
  before the loop does.
\<close>

datatype poll = Dequeued ctx_ref | TimedOut bool

fun DequeueTask :: "poll list \<Rightarrow> state \<Rightarrow> (TaskContext_ptr \<times> state) option" where
  "DequeueTask [] s = None"
| "DequeueTask (Dequeued buf # ps) s = Some (Some buf, s)"
| "DequeueTask (TimedOut is_running # ps) s =
     (if is_running then DequeueTask ps (do_call AccountTaskSwitchSlow s)
      else Some (None, s))"

text \<open>
  The number of dequeue attempts of one \<open>DequeueTask\<close> call that time out: the loop
  makes an attempt for each poll up to the one that ends it.
\<close>

fun timed_out_attempts :: "poll list \<Rightarrow> nat" where
  "timed_out_attempts [] = 0"
| "timed_out_attempts (Dequeued buf # ps) = 0"
| "timed_out_attempts (TimedOut is_running # ps) =
     Suc (if is_running then timed_out_attempts ps else 0)"

text \<open>
  A sequence of \<open>Schedule\<close> calls made by one thread, each with a context and the clock
  reading at that moment: \<open>stamps\<close> lists, call by call, the queue-wait timepoint that
  the call has left in the context it scheduled.
\<close>

fun stamps :: "bool \<Rightarrow> (ctx_ref \<times> time_point) list \<Rightarrow> state \<Rightarrow> time_point list" where
  "stamps ndebug [] s = []"
| "stamps ndebug ((context, now) # xs) s =
     (case Schedule ndebug (Some context) now s of
        Inl e \<Rightarrow> []
      | Inr s' \<Rightarrow> queue_wait_timepoint (contexts s' context) # stamps ndebug xs s')"

section \<open>The wait list\<close>

text \<open>
  \<^verbatim>\<open>waiting_contexts_\<close> is a sequence of \<^verbatim>\<open>boost::intrusive_ptr<TaskContext>\<close>; a slot that
  was reset holds the null pointer. \<open>wl_calls\<close> logs the calls made on contexts.
\<close>

record WaitList =
  waiting_contexts :: "TaskContext_ptr list"
  wl_calls :: "call list"

text \<open>
  \<^verbatim>\<open>assert(lock)\<close>: \<open>lock\<close> tells whether the caller's lock object owns the mutex. With
  assertions compiled out (\<open>ndebug\<close>) the argument is not looked at.
\<close>

definition Append :: "bool \<Rightarrow> bool \<Rightarrow> TaskContext_ptr \<Rightarrow> WaitList \<Rightarrow> error + WaitList" where
  "Append ndebug lock context wl =
     (if \<not> ndebug \<and> \<not> lock then Inl AssertionFailed
      else Inr (wl\<lparr>waiting_contexts := waiting_contexts wl @ [context]\<rparr>))"

text \<open>\<^verbatim>\<open>WaitList::WakeupOne\<close> (lines 17-27); the loop pops the front slot in each round.\<close>

fun WakeupOne_loop :: "TaskContext_ptr list \<Rightarrow> call list \<Rightarrow> TaskContext_ptr list \<times> call list" where
  "WakeupOne_loop [] log = ([], log)"
| "WakeupOne_loop (next_context # rest) log =
     (case next_context of
        Some c \<Rightarrow> (rest, log @ [Wakeup c kWaitList])
      | None \<Rightarrow> WakeupOne_loop rest log)"

definition WakeupOne :: "bool \<Rightarrow> bool \<Rightarrow> WaitList \<Rightarrow> error + WaitList" where
  "WakeupOne ndebug lock wl =
     (if \<not> ndebug \<and> \<not> lock then Inl AssertionFailed
      else (case WakeupOne_loop (waiting_contexts wl) (wl_calls wl) of
              (rest, log) \<Rightarrow> Inr \<lparr>waiting_contexts = rest, wl_calls = log\<rparr>))"

text \<open>\<^verbatim>\<open>WaitList::WakeupAll\<close> (lines 29-37).\<close>

fun WakeupAll_loop :: "TaskContext_ptr list \<Rightarrow> call list \<Rightarrow> call list" where
  "WakeupAll_loop [] log = log"
| "WakeupAll_loop (context # rest) log =
     WakeupAll_loop rest
       (case context of Some c \<Rightarrow> log @ [Wakeup c kWaitList] | None \<Rightarrow> log)"

definition WakeupAll :: "bool \<Rightarrow> bool \<Rightarrow> WaitList \<Rightarrow> error + WaitList" where
  "WakeupAll ndebug lock wl =
     (if \<not> ndebug \<and> \<not> lock then Inl AssertionFailed
      else Inr \<lparr>waiting_contexts = [],
                wl_calls = WakeupAll_loop (waiting_contexts wl) (wl_calls wl)\<rparr>)"

text \<open>
  \<^verbatim>\<open>std::find\<close> over a whole sequence, iterators as positions: the position of the first
  element equal to \<open>v\<close>, or the length of the sequence (the end iterator) if there is none.
\<close>

fun std_find :: "'a list \<Rightarrow> 'a \<Rightarrow> nat" where
  "std_find [] v = 0"
| "std_find (x # xs) v = (if x = v then 0 else Suc (std_find xs v))"

text \<open>
  \<^verbatim>\<open>WaitList::Remove\<close> (lines 39-49). It takes the lock itself. The closing assertion
  searches the slots after \<open>it\<close> for a second occurrence.
\<close>

definition Remove :: "bool \<Rightarrow> TaskContext_ptr \<Rightarrow> WaitList \<Rightarrow> error + WaitList" where
  "Remove ndebug context wl =
     (let it = std_find (waiting_contexts wl) context
      in if it = length (waiting_contexts wl) then Inr wl
         else
           (let wl1 = wl\<lparr>waiting_contexts := (waiting_contexts wl)[it := None]\<rparr>
            in if \<not> ndebug \<and>
                  Suc it + std_find (drop (Suc it) (waiting_contexts wl1)) context
                    \<noteq> length (waiting_contexts wl1)
               then Inl AssertionFailed
               else Inr wl1))"

text \<open>The contexts held in the non-empty slots, in list order.\<close>

fun waiters :: "TaskContext_ptr list \<Rightarrow> ctx_ref list" where
  "waiters [] = []"
| "waiters (None # rest) = waiters rest"
| "waiters (Some c # rest) = c # waiters rest"

text \<open>\<open>k\<close> successive calls of \<open>WakeupOne\<close>.\<close>

fun WakeupOne_times :: "nat \<Rightarrow> bool \<Rightarrow> bool \<Rightarrow> WaitList \<Rightarrow> error + WaitList" where
  "WakeupOne_times 0 ndebug lock wl = Inr wl"
| "WakeupOne_times (Suc k) ndebug lock wl =
     (case WakeupOne ndebug lock wl of
        Inl e \<Rightarrow> Inl e
      | Inr wl' \<Rightarrow> WakeupOne_times k ndebug lock wl')"

section \<open>Facts about the log\<close>

lemma calls_do_call: "calls (do_call c s) = calls s @ [c]"
  by (simp add: do_call_def)

lemma new_calls_append: "calls s' = calls s @ cs \<Longrightarrow> new_calls s s' = cs"
  by (simp add: new_calls_def)

lemma HandleOverload_calls:
  "calls (HandleOverload context s) =
     calls s @ AccountTaskOverload #
       (if overload_action s = kCancel \<and> \<not> is_critical (contexts s context)
        then [RequestCancel context kOverload, AccountTaskCancelOverload] else [])"
  by (simp add: HandleOverload_def do_call_def Let_def)

lemma HandleOverload_frame:
  "HandleOverload context s = s\<lparr>calls := calls (HandleOverload context s)\<rparr>"
  by (simp add: HandleOverload_def do_call_def Let_def)

section \<open>HandleOverload\<close>

text \<open>
  C2. For every context, \<open>HandleOverload\<close> accounts one task overload, whatever the
  settings. It requests cancellation with reason \<open>kOverload\<close> and accounts one cancel due
  to overload exactly when the overload action is \<open>kCancel\<close> and the context is not
  critical; these are then the only further calls, in this order. A critical context
  gets no cancellation request. Nothing but the log changes.
\<close>

theorem HandleOverload_accounts:
  "count_list (new_calls s (HandleOverload context s)) AccountTaskOverload = 1 \<and>
   (RequestCancel context kOverload \<in> set (new_calls s (HandleOverload context s))
      \<longleftrightarrow> overload_action s = kCancel \<and> \<not> is_critical (contexts s context)) \<and>
   count_list (new_calls s (HandleOverload context s)) (RequestCancel context kOverload) =
     (if overload_action s = kCancel \<and> \<not> is_critical (contexts s context) then 1 else 0) \<and>
   count_list (new_calls s (HandleOverload context s)) AccountTaskCancelOverload =
     (if overload_action s = kCancel \<and> \<not> is_critical (contexts s context) then 1 else 0) \<and>
   (is_critical (contexts s context) \<longrightarrow>
      (\<forall>c r. RequestCancel c r \<notin> set (new_calls s (HandleOverload context s)))) \<and>
   (\<forall>c r. RequestCancel c r \<in> set (new_calls s (HandleOverload context s))
      \<longrightarrow> c = context \<and> r = kOverload) \<and>
   HandleOverload context s = s\<lparr>calls := calls s @ new_calls s (HandleOverload context s)\<rparr>"
proof -
  let ?cs = "AccountTaskOverload #
       (if overload_action s = kCancel \<and> \<not> is_critical (contexts s context)
        then [RequestCancel context kOverload, AccountTaskCancelOverload] else [])"
  have n: "new_calls s (HandleOverload context s) = ?cs"
    by (rule new_calls_append) (rule HandleOverload_calls)
  have f: "HandleOverload context s = s\<lparr>calls := calls s @ ?cs\<rparr>"
    using HandleOverload_frame [of "context" s] by (simp only: HandleOverload_calls)
  show ?thesis
    unfolding n using f by simp
qed

theorem HandleOverload_accounts_witness:
  "count_list (new_calls (TaskProcessor_init\<lparr>overload_action := kCancel\<rparr>)
       (HandleOverload 7 (TaskProcessor_init\<lparr>overload_action := kCancel\<rparr>)))
     AccountTaskOverload = 1 \<and>
   RequestCancel 7 kOverload \<in> set (new_calls (TaskProcessor_init\<lparr>overload_action := kCancel\<rparr>)
       (HandleOverload 7 (TaskProcessor_init\<lparr>overload_action := kCancel\<rparr>))) \<and>
   count_list (new_calls (TaskProcessor_init\<lparr>overload_action := kCancel\<rparr>)
       (HandleOverload 7 (TaskProcessor_init\<lparr>overload_action := kCancel\<rparr>)))
     AccountTaskCancelOverload = 1"
  using HandleOverload_accounts [of "TaskProcessor_init\<lparr>overload_action := kCancel\<rparr>" 7]
  by (simp add: TaskProcessor_init_def)

section \<open>Schedule\<close>

lemma SetTaskQueueWaitTimepoint_calls:
  "calls (SetTaskQueueWaitTimepoint c now s) = calls s"
  by (simp add: SetTaskQueueWaitTimepoint_def SetQueueWaitTimepoint_def Let_def)

lemma SetTaskQueueWaitTimepoint_fields:
  "task_queue_size (SetTaskQueueWaitTimepoint c now s) = task_queue_size s \<and>
   is_shutting_down (SetTaskQueueWaitTimepoint c now s) = is_shutting_down s \<and>
   task_count (SetTaskQueueWaitTimepoint c now s) = task_count s + 1 \<and>
   queue_wait_timepoint (contexts (SetTaskQueueWaitTimepoint c now s) c) =
     (if task_count s mod 16 = 0 then now else 0)"
  by (simp add: SetTaskQueueWaitTimepoint_def SetQueueWaitTimepoint_def Let_def
      kTaskTimestampFrequency_def)

lemma HandleOverload_fields:
  "task_queue_size (HandleOverload c s) = task_queue_size s \<and>
   is_shutting_down (HandleOverload c s) = is_shutting_down s \<and>
   task_count (HandleOverload c s) = task_count s \<and>
   contexts (HandleOverload c s) = contexts s \<and>
   task_queue_wait_time_overloaded (HandleOverload c s) = task_queue_wait_time_overloaded s"
  by (simp add: HandleOverload_def do_call_def Let_def)

lemma do_call_fields:
  "task_queue_size (do_call e s) = task_queue_size s \<and>
   is_shutting_down (do_call e s) = is_shutting_down s \<and>
   task_count (do_call e s) = task_count s \<and>
   contexts (do_call e s) = contexts s"
  by (simp add: do_call_def)

lemma Schedule_Some:
  "Schedule ndebug (Some c) now s =
     Inr (let s1 = (if max_task_queue_wait_length s \<noteq> 0 \<and> \<not> is_critical (contexts s c) \<and>
                       max_task_queue_wait_length s \<le> task_queue_size s
                    then HandleOverload c s else s);
              s2 = (if is_shutting_down s
                    then do_call (RequestCancel c kShutdown) s1 else s1);
              s3 = SetTaskQueueWaitTimepoint c now s2
          in s3\<lparr>task_queue_size := task_queue_size s + 1,
                calls := calls s2 @ [AddRef c, Enqueue c]\<rparr>)"
  by (simp add: Schedule_def Let_def do_call_def SetTaskQueueWaitTimepoint_calls
      SetTaskQueueWaitTimepoint_fields HandleOverload_fields)

lemma Schedule_calls:
  "Schedule ndebug (Some c) now s = Inr s' \<Longrightarrow>
   calls s' =
     calls (if max_task_queue_wait_length s \<noteq> 0 \<and> \<not> is_critical (contexts s c) \<and>
               max_task_queue_wait_length s \<le> task_queue_size s
            then HandleOverload c s else s) @
     (if is_shutting_down s then [RequestCancel c kShutdown] else []) @
     [AddRef c, Enqueue c]"
  by (auto simp add: Schedule_Some Let_def calls_do_call)

lemma Schedule_fields:
  assumes "Schedule ndebug (Some c) now s = Inr s'"
  shows "task_queue_size s' = task_queue_size s + 1 \<and>
   task_count s' = task_count s + 1 \<and>
   queue_wait_timepoint (contexts s' c) = (if task_count s mod 16 = 0 then now else 0)"
proof -
  define s2 where "s2 =
    (if is_shutting_down s
     then do_call (RequestCancel c kShutdown)
            (if max_task_queue_wait_length s \<noteq> 0 \<and> \<not> is_critical (contexts s c) \<and>
                max_task_queue_wait_length s \<le> task_queue_size s
             then HandleOverload c s else s)
     else (if max_task_queue_wait_length s \<noteq> 0 \<and> \<not> is_critical (contexts s c) \<and>
                max_task_queue_wait_length s \<le> task_queue_size s
             then HandleOverload c s else s))"
  have s': "s' = (SetTaskQueueWaitTimepoint c now s2)
                   \<lparr>task_queue_size := task_queue_size s + 1,
                    calls := calls s2 @ [AddRef c, Enqueue c]\<rparr>"
    using assms by (simp add: Schedule_Some Let_def s2_def)
  have tc: "task_count s2 = task_count s"
    by (simp add: s2_def HandleOverload_fields do_call_fields)
  show ?thesis
    by (simp add: s' SetTaskQueueWaitTimepoint_fields tc)
qed

lemma Schedule_returns: "\<exists>s'. Schedule ndebug (Some c) now s = Inr s'"
  by (simp add: Schedule_def Let_def)

lemma HandleOverload_new_calls:
  "new_calls s (HandleOverload c s) =
     AccountTaskOverload #
       (if overload_action s = kCancel \<and> \<not> is_critical (contexts s c)
        then [RequestCancel c kOverload, AccountTaskCancelOverload] else [])"
  by (rule new_calls_append) (rule HandleOverload_calls)

lemma Schedule_new_calls:
  assumes "Schedule ndebug (Some c) now s = Inr s'"
  shows "new_calls s s' =
     (if max_task_queue_wait_length s \<noteq> 0 \<and> \<not> is_critical (contexts s c) \<and>
         max_task_queue_wait_length s \<le> task_queue_size s
      then new_calls s (HandleOverload c s) else []) @
     (if is_shutting_down s then [RequestCancel c kShutdown] else []) @
     [AddRef c, Enqueue c]"
  by (rule new_calls_append)
     (simp add: Schedule_calls [OF assms] HandleOverload_calls HandleOverload_new_calls)

text \<open>
  C3. For every context passed to \<open>Schedule\<close>, the call returns, and the overload
  handler is invoked exactly when \<open>max_task_queue_wait_length\<close> is nonzero, the queue
  size has reached it and the context is not critical (the handler is the only place
  that accounts a task overload). The calls of the handler come first, then the shutdown
  cancellation if any, and last the reference is added and the context is enqueued:
  whether or not the handler ran and whether or not the processor is shutting down, the
  context is enqueued, once, as the last call.
\<close>

theorem Schedule_overload_then_enqueue:
  "\<exists>s'. Schedule ndebug (Some c) now s = Inr s' \<and>
     (AccountTaskOverload \<in> set (new_calls s s') \<longleftrightarrow>
        max_task_queue_wait_length s \<noteq> 0 \<and>
        max_task_queue_wait_length s \<le> task_queue_size s \<and>
        \<not> is_critical (contexts s c)) \<and>
     new_calls s s' =
       (if max_task_queue_wait_length s \<noteq> 0 \<and> \<not> is_critical (contexts s c) \<and>
           max_task_queue_wait_length s \<le> task_queue_size s
        then new_calls s (HandleOverload c s) else []) @
       (if is_shutting_down s then [RequestCancel c kShutdown] else []) @
       [AddRef c, Enqueue c] \<and>
     count_list (new_calls s s') (Enqueue c) = 1 \<and>
     last (calls s') = Enqueue c"
proof -
  obtain s' where r: "Schedule ndebug (Some c) now s = Inr s'"
    using Schedule_returns by blast
  have n: "new_calls s s' =
       (if max_task_queue_wait_length s \<noteq> 0 \<and> \<not> is_critical (contexts s c) \<and>
           max_task_queue_wait_length s \<le> task_queue_size s
        then new_calls s (HandleOverload c s) else []) @
       (if is_shutting_down s then [RequestCancel c kShutdown] else []) @
       [AddRef c, Enqueue c]"
    by (rule Schedule_new_calls [OF r])
  have a: "AccountTaskOverload \<in> set (new_calls s s') \<longleftrightarrow>
        max_task_queue_wait_length s \<noteq> 0 \<and>
        max_task_queue_wait_length s \<le> task_queue_size s \<and>
        \<not> is_critical (contexts s c)"
    by (auto simp add: n HandleOverload_new_calls)
  have e: "count_list (new_calls s s') (Enqueue c) = 1"
    by (simp add: n HandleOverload_new_calls)
  have l: "last (calls s') = Enqueue c"
    by (simp add: Schedule_calls [OF r])
  from r a n e l show ?thesis by blast
qed

theorem Schedule_overload_then_enqueue_witness:
  "\<exists>s'. Schedule False (Some 7) 1000
          (TaskProcessor_init\<lparr>task_queue_size := 4, max_task_queue_wait_length := 4\<rparr>) = Inr s' \<and>
     AccountTaskOverload \<in> set (new_calls
          (TaskProcessor_init\<lparr>task_queue_size := 4, max_task_queue_wait_length := 4\<rparr>) s') \<and>
     count_list (new_calls
          (TaskProcessor_init\<lparr>task_queue_size := 4, max_task_queue_wait_length := 4\<rparr>) s')
        (Enqueue 7) = 1 \<and>
     last (calls s') = Enqueue 7"
  using Schedule_overload_then_enqueue
    [of False 7 1000 "TaskProcessor_init\<lparr>task_queue_size := 4, max_task_queue_wait_length := 4\<rparr>"]
  by (auto simp add: TaskProcessor_init_def)

text \<open>
  C4. For every context passed to \<open>Schedule\<close> while \<open>is_shutting_down\<close> is true, the
  call requests cancellation of the context with reason \<open>kShutdown\<close>, then adds the
  reference and enqueues the context; nothing before that request is a shutdown
  cancellation or an enqueue. While \<open>is_shutting_down\<close> is false, \<open>Schedule\<close> makes no
  cancellation request with reason \<open>kShutdown\<close> on any context, and enqueues as well.
\<close>

theorem Schedule_shutdown_cancel:
  "\<exists>s'. Schedule ndebug (Some c) now s = Inr s' \<and>
     (is_shutting_down s \<longrightarrow>
        (\<exists>pre. new_calls s s' = pre @ [RequestCancel c kShutdown, AddRef c, Enqueue c] \<and>
               (\<forall>x. RequestCancel x kShutdown \<notin> set pre \<and> Enqueue x \<notin> set pre))) \<and>
     (\<not> is_shutting_down s \<longrightarrow>
        (\<forall>x. RequestCancel x kShutdown \<notin> set (new_calls s s')) \<and>
        Enqueue c \<in> set (new_calls s s'))"
proof -
  obtain s' where r: "Schedule ndebug (Some c) now s = Inr s'"
    using Schedule_returns by blast
  let ?pre = "if max_task_queue_wait_length s \<noteq> 0 \<and> \<not> is_critical (contexts s c) \<and>
           max_task_queue_wait_length s \<le> task_queue_size s
        then new_calls s (HandleOverload c s) else []"
  have n: "new_calls s s' = ?pre @
       (if is_shutting_down s then [RequestCancel c kShutdown] else []) @
       [AddRef c, Enqueue c]"
    by (rule Schedule_new_calls [OF r])
  have p: "\<forall>x. RequestCancel x kShutdown \<notin> set ?pre \<and> Enqueue x \<notin> set ?pre"
    by (simp add: HandleOverload_new_calls)
  have 1: "is_shutting_down s \<longrightarrow>
        (\<exists>pre. new_calls s s' = pre @ [RequestCancel c kShutdown, AddRef c, Enqueue c] \<and>
               (\<forall>x. RequestCancel x kShutdown \<notin> set pre \<and> Enqueue x \<notin> set pre))"
  proof
    assume "is_shutting_down s"
    then have "new_calls s s' = ?pre @ [RequestCancel c kShutdown, AddRef c, Enqueue c]"
      using n by simp
    with p show "\<exists>pre. new_calls s s' = pre @ [RequestCancel c kShutdown, AddRef c, Enqueue c] \<and>
               (\<forall>x. RequestCancel x kShutdown \<notin> set pre \<and> Enqueue x \<notin> set pre)"
      by blast
  qed
  have 2: "\<not> is_shutting_down s \<longrightarrow>
        (\<forall>x. RequestCancel x kShutdown \<notin> set (new_calls s s')) \<and>
        Enqueue c \<in> set (new_calls s s')"
    using p by (simp add: n)
  from r 1 2 show ?thesis by blast
qed

theorem Schedule_shutdown_cancel_witness:
  "(\<exists>s'. Schedule False (Some 7) 1000 (TaskProcessor_init\<lparr>is_shutting_down := True\<rparr>) = Inr s' \<and>
     (\<exists>pre. new_calls (TaskProcessor_init\<lparr>is_shutting_down := True\<rparr>) s' =
              pre @ [RequestCancel 7 kShutdown, AddRef 7, Enqueue 7])) \<and>
   (\<exists>s'. Schedule False (Some 7) 1000 TaskProcessor_init = Inr s' \<and>
     RequestCancel 7 kShutdown \<notin> set (new_calls TaskProcessor_init s') \<and>
     Enqueue 7 \<in> set (new_calls TaskProcessor_init s'))"
  using Schedule_shutdown_cancel [of False 7 1000 "TaskProcessor_init\<lparr>is_shutting_down := True\<rparr>"]
    Schedule_shutdown_cancel [of False 7 1000 TaskProcessor_init]
  by (auto simp add: TaskProcessor_init_def)

text \<open>
  C10. The length check of \<open>Schedule\<close> compares the threshold with the queue size as it
  is before the call: the handler runs exactly when the threshold is nonzero, the context
  is not critical and the size found is at least the threshold. The context being
  scheduled is not in that size, so with fewer than the threshold accounted the handler
  does not run, also when this context makes the size reach the threshold. The size is
  incremented by one (as a \<^verbatim>\<open>size_t\<close>) whether or not the handler ran.
\<close>

theorem Schedule_size_read_before_increment:
  "\<exists>s'. Schedule ndebug (Some c) now s = Inr s' \<and>
     task_queue_size s' = task_queue_size s + 1 \<and>
     (AccountTaskOverload \<in> set (new_calls s s') \<longleftrightarrow>
        max_task_queue_wait_length s \<noteq> 0 \<and> \<not> is_critical (contexts s c) \<and>
        max_task_queue_wait_length s \<le> task_queue_size s) \<and>
     (task_queue_size s < max_task_queue_wait_length s \<longrightarrow>
        AccountTaskOverload \<notin> set (new_calls s s'))"
proof -
  obtain s' where r: "Schedule ndebug (Some c) now s = Inr s'"
    using Schedule_returns by blast
  have a: "AccountTaskOverload \<in> set (new_calls s s') \<longleftrightarrow>
        max_task_queue_wait_length s \<noteq> 0 \<and> \<not> is_critical (contexts s c) \<and>
        max_task_queue_wait_length s \<le> task_queue_size s"
    by (auto simp add: Schedule_new_calls [OF r] HandleOverload_new_calls)
  have b: "task_queue_size s < max_task_queue_wait_length s \<longrightarrow>
        AccountTaskOverload \<notin> set (new_calls s s')"
    unfolding a by (simp add: not_le)
  from r Schedule_fields [OF r] a b show ?thesis by blast
qed

theorem Schedule_size_read_before_increment_witness:
  "\<exists>s'. Schedule False (Some 7) 1000
          (TaskProcessor_init\<lparr>task_queue_size := 3, max_task_queue_wait_length := 4\<rparr>) = Inr s' \<and>
     task_queue_size s' = 4 \<and>
     AccountTaskOverload \<notin> set (new_calls
          (TaskProcessor_init\<lparr>task_queue_size := 3, max_task_queue_wait_length := 4\<rparr>) s')"
  using Schedule_size_read_before_increment
    [of False 7 1000 "TaskProcessor_init\<lparr>task_queue_size := 3, max_task_queue_wait_length := 4\<rparr>"]
  by (auto simp add: TaskProcessor_init_def)

section \<open>CheckWaitTime\<close>




section \<open>DequeueTask\<close>

lemma DequeueTask_polls_true:
  "DequeueTask (replicate n (TimedOut True) @ ps) s =
     DequeueTask ps (s\<lparr>calls := calls s @ replicate n AccountTaskSwitchSlow\<rparr>)"
proof (induction n arbitrary: s)
  case 0
  show ?case by simp
next
  case (Suc n)
  show ?case
    by (simp add: Suc.IH do_call_def replicate_append_same)
qed

lemma timed_out_attempts_polls_true:
  "timed_out_attempts (replicate n (TimedOut True) @ ps) = n + timed_out_attempts ps"
  by (induction n) simp_all

text \<open>
  C5, as amended. In the worker dequeue loop, every dequeue attempt that times out while
  \<open>is_running\<close> is loaded as true accounts one slow switch, and nothing else does.
  After \<open>n\<close> such attempts, a timed-out attempt after which \<open>is_running\<close> is loaded as
  false ends the loop with the null handle and \<open>n\<close> slow switches accounted, although
  \<open>n + 1\<close> attempts have timed out; an attempt that produces an item ends it with that
  item and \<open>n\<close> slow switches; and while neither happens the loop goes on polling.
\<close>

theorem DequeueTask_counts_running_timeouts:
  "DequeueTask (replicate n (TimedOut True) @ TimedOut False # rest) s =
     Some (None, s\<lparr>calls := calls s @ replicate n AccountTaskSwitchSlow\<rparr>) \<and>
   DequeueTask (replicate n (TimedOut True) @ Dequeued c # rest) s =
     Some (Some c, s\<lparr>calls := calls s @ replicate n AccountTaskSwitchSlow\<rparr>) \<and>
   DequeueTask (replicate n (TimedOut True)) s = None \<and>
   timed_out_attempts (replicate n (TimedOut True) @ TimedOut False # rest) = Suc n \<and>
   timed_out_attempts (replicate n (TimedOut True) @ Dequeued c # rest) = n"
  using DequeueTask_polls_true [of n "[]" s]
  by (simp add: DequeueTask_polls_true timed_out_attempts_polls_true)

theorem DequeueTask_counts_running_timeouts_witness:
  "DequeueTask [TimedOut True, TimedOut True, TimedOut False] TaskProcessor_init =
     Some (None, TaskProcessor_init\<lparr>calls := [AccountTaskSwitchSlow, AccountTaskSwitchSlow]\<rparr>) \<and>
   timed_out_attempts [TimedOut True, TimedOut True, TimedOut False] = 3"
  using DequeueTask_counts_running_timeouts [of "Suc (Suc 0)" "[]" TaskProcessor_init]
  by (simp add: TaskProcessor_init_def)

text \<open>
  The claim C5 as stated fails: a single attempt that times out while \<open>is_running\<close> is
  false ends the loop and leaves the state, and so the slow-switch count, as it was.
\<close>

theorem DequeueTask_last_timeout_not_counted:
  "DequeueTask [TimedOut False] TaskProcessor_init = Some (None, TaskProcessor_init) \<and>
   timed_out_attempts [TimedOut False] = 1 \<and>
   count_list (new_calls TaskProcessor_init TaskProcessor_init) AccountTaskSwitchSlow = 0"
  by (simp add: new_calls_def)

section \<open>Wait-timepoint sampling\<close>

lemma word_mod_16_unat: "(w :: 64 word) mod 16 = 0 \<longleftrightarrow> unat w mod 16 = 0"
proof -
  have "unat (w mod 16) = unat w mod 16"
    by (simp add: unat_mod)
  then show ?thesis
    by (metis unat_eq_0)
qed

lemma unat_add_of_nat_mod_16:
  "unat ((w :: 64 word) + of_nat k) mod 16 = (unat w + k) mod 16"
proof -
  have "unat (w + of_nat k) = (unat w + k mod 2 ^ 64) mod 2 ^ 64"
    by (simp add: unat_word_ariths unat_of_nat)
  also have "\<dots> = (unat w + k) mod 2 ^ 64"
    by (simp add: mod_add_right_eq)
  finally have "unat (w + of_nat k) mod 16 = (unat w + k) mod 2 ^ 64 mod 16"
    by simp
  also have "\<dots> = (unat w + k) mod 16"
    by (rule mod_mod_cancel) simp
  finally show ?thesis .
qed

lemma stamps_nth:
  "length (stamps ndebug xs s) = length xs \<and>
   (\<forall>k<length xs. stamps ndebug xs s ! k =
      (if (task_count s + of_nat k) mod 16 = 0 then snd (xs ! k) else 0))"
proof (induction xs arbitrary: s)
  case Nil
  show ?case by simp
next
  case (Cons x xs)
  obtain c now where x: "x = (c, now)" by (cases x)
  obtain s' where r: "Schedule ndebug (Some c) now s = Inr s'"
    using Schedule_returns by blast
  note f = Schedule_fields [OF r]
  have st: "stamps ndebug (x # xs) s =
      (if task_count s mod 16 = 0 then now else 0) # stamps ndebug xs s'"
    by (simp add: x r f)
  have len: "length (stamps ndebug (x # xs) s) = length (x # xs)"
    by (simp add: st Cons.IH)
  have nth: "stamps ndebug (x # xs) s ! k =
      (if (task_count s + of_nat k) mod 16 = 0 then snd ((x # xs) ! k) else 0)"
    if "k < length (x # xs)" for k
  proof (cases k)
    case 0
    show ?thesis unfolding st 0 by (simp add: x)
  next
    case (Suc j)
    with that have "j < length xs" by simp
    then have "stamps ndebug xs s' ! j =
        (if (task_count s' + of_nat j) mod 16 = 0 then snd (xs ! j) else 0)"
      using Cons.IH by blast
    then show ?thesis
      unfolding st Suc by (simp add: f add.assoc)
  qed
  from len nth show ?case by blast
qed

lemma multiple_within_16: "\<exists>d<16. ((b::nat) + d) mod 16 = 0"
proof -
  have "(b + (16 - b mod 16) mod 16) mod 16 = 0"
    by (metis (no_types, opaque_lifting) add.commute mod_add_right_eq le_add_diff_inverse2 mod_less_divisor mod_self less_imp_le_nat zero_less_numeral mod_add_left_eq)
  moreover have "(16 - b mod 16) mod 16 < (16::nat)" by simp
  ultimately show ?thesis by (intro exI conjI)
qed

lemma multiple_within_16_le:
  assumes "i \<le> i'" "i' < 16" "((b::nat) + i) mod 16 = 0" "(b + i') mod 16 = 0"
  shows "i = i'"
proof -
  have "16 dvd b + i" "16 dvd b + i'"
    using assms by (simp_all add: mod_eq_0_iff_dvd)
  then have "16 dvd (b + i') - (b + i)"
    by (rule dvd_diff_nat [rotated])
  then have "16 dvd i' - i" by simp
  moreover have "i' - i < 16" using assms by simp
  ultimately have "i' - i = 0"
    by (meson nat_dvd_not_less not_gr_zero)
  with assms show ?thesis by simp
qed

lemma multiple_within_16_unique:
  assumes "i < 16" "i' < 16" "((b::nat) + i) mod 16 = 0" "(b + i') mod 16 = 0"
  shows "i = i'"
proof (cases "i \<le> i'")
  case True
  from True assms(2,3,4) show ?thesis by (rule multiple_within_16_le)
next
  case False
  then have "i' \<le> i" by simp
  from this assms(1,4,3) have "i' = i" by (rule multiple_within_16_le)
  then show ?thesis by simp
qed

lemma one_in_sixteen: "\<exists>!k::nat. j \<le> k \<and> k < j + 16 \<and> (a + k) mod 16 = 0"
proof -
  obtain d where d: "d < 16" "(a + j + d) mod 16 = 0"
    using multiple_within_16 [of "a + j"] by (elim exE conjE)
  show ?thesis
  proof (rule ex1I [of _ "j + d"])
    show "j \<le> j + d \<and> j + d < j + 16 \<and> (a + (j + d)) mod 16 = 0"
      using d by (simp add: add.assoc)
  next
    fix k assume k: "j \<le> k \<and> k < j + 16 \<and> (a + k) mod 16 = 0"
    then have k1: "j \<le> k" and k2: "k < j + 16" and k3: "(a + k) mod 16 = 0"
      by blast+
    from k1 k2 have k4: "k - j < 16" by arith
    from k1 have "a + j + (k - j) = a + k" by arith
    with k3 have k5: "(a + j + (k - j)) mod 16 = 0" by simp
    have "k - j = d" by (rule multiple_within_16_unique [OF k4 d(1) k5 d(2)])
    with k1 show "k = j + d" by arith
  qed
qed

lemma word_stamp_iff:
  "((w :: 64 word) + of_nat k) mod 16 = 0 \<longleftrightarrow> (unat w + k) mod 16 = 0"
  by (simp only: word_mod_16_unat unat_add_of_nat_mod_16)

lemma window_card:
  "card {i. i < 16 \<and> ((b::nat) + i) mod 16 = 0} = 1"
proof -
  obtain d where d: "d < 16" "(b + d) mod 16 = 0"
    using multiple_within_16 [of b] by (elim exE conjE)
  have "{i. i < 16 \<and> (b + i) mod 16 = 0} = {d}"
  proof (rule equalityI; rule subsetI)
    fix i assume "i \<in> {i. i < 16 \<and> (b + i) mod 16 = 0}"
    then have i: "i < 16" "(b + i) mod 16 = 0" by simp_all
    have "i = d" by (rule multiple_within_16_unique [OF i(1) d(1) i(2) d(2)])
    then show "i \<in> {d}" by simp
  next
    fix i assume "i \<in> {d}"
    with d show "i \<in> {i. i < 16 \<and> (b + i) mod 16 = 0}" by simp
  qed
  then show ?thesis by simp
qed

lemma window_count:
  assumes len: "j + 16 \<le> length L"
    and nth: "\<forall>k<length L. (L ! k \<noteq> (0::int)) = ((a + k) mod 16 = (0::nat))"
  shows "length (filter (\<lambda>t. t \<noteq> 0) (take 16 (drop j L))) = 1 \<and>
         length (filter (\<lambda>t. t = 0) (take 16 (drop j L))) = 15"
proof -
  let ?W = "take 16 (drop j L)"
  have lw: "length ?W = 16" using len by simp
  have w: "?W ! i = L ! (j + i)" if "i < 16" for i
    using that len by simp
  have "{i. i < length ?W \<and> ?W ! i \<noteq> 0} = {i. i < 16 \<and> (a + j + i) mod 16 = 0}"
  proof (rule Collect_cong)
    fix i
    show "(i < length ?W \<and> ?W ! i \<noteq> 0) = (i < 16 \<and> (a + j + i) mod 16 = 0)"
    proof (cases "i < 16")
      case True
      then have "j + i < length L" using len by arith
      then have "(L ! (j + i) \<noteq> 0) = ((a + (j + i)) mod 16 = 0)"
        by (rule nth [rule_format])
      then show ?thesis using True lw w [OF True] by (simp add: add.assoc)
    next
      case False
      then show ?thesis using lw by simp
    qed
  qed
  then have one: "length (filter (\<lambda>t. t \<noteq> 0) ?W) = 1"
    by (simp only: length_filter_conv_card window_card)
  have "length (filter (\<lambda>t. t \<noteq> 0) ?W) + length (filter (\<lambda>t. \<not> t \<noteq> 0) ?W) = length ?W"
    by (rule sum_length_filter_compl)
  with one lw have "length (filter (\<lambda>t. \<not> t \<noteq> 0) ?W) = 15" by simp
  with one show ?thesis by simp
qed

text \<open>
  C6. For every sequence of \<open>Schedule\<close> calls made by one thread, from any state: every
  call returns; the call number \<open>k\<close> stores the clock reading if the thread-local counter,
  which it finds at its start value plus \<open>k\<close>, is a multiple of 16, and the zero sentinel
  if not; among any 16 consecutive calls exactly one finds such a counter; so, clock
  readings being nonzero, exactly one of any 16 consecutive calls leaves a real timestamp
  and the other 15 leave the sentinel.
\<close>

theorem Schedule_stamps_one_in_sixteen:
  "length (stamps ndebug xs s) = length xs \<and>
   (\<forall>k<length xs. stamps ndebug xs s ! k =
      (if (task_count s + of_nat k) mod kTaskTimestampFrequency = 0 then snd (xs ! k) else 0)) \<and>
   (\<forall>j. j + 16 \<le> length xs \<longrightarrow>
      (\<exists>!k. j \<le> k \<and> k < j + 16 \<and>
            (task_count s + of_nat k) mod kTaskTimestampFrequency = 0)) \<and>
   (\<forall>j. j + 16 \<le> length xs \<and> (\<forall>x\<in>set xs. snd x \<noteq> 0) \<longrightarrow>
      length (filter (\<lambda>t. t \<noteq> 0) (take 16 (drop j (stamps ndebug xs s)))) = 1 \<and>
      length (filter (\<lambda>t. t = 0) (take 16 (drop j (stamps ndebug xs s)))) = 15)"
proof -
  note sn = stamps_nth [of ndebug xs s]
  have 1: "length (stamps ndebug xs s) = length xs" using sn by blast
  have 2: "\<forall>k<length xs. stamps ndebug xs s ! k =
      (if (task_count s + of_nat k) mod kTaskTimestampFrequency = 0 then snd (xs ! k) else 0)"
    using sn by (simp add: kTaskTimestampFrequency_def)
  have 3: "\<forall>j. j + 16 \<le> length xs \<longrightarrow>
      (\<exists>!k. j \<le> k \<and> k < j + 16 \<and>
            (task_count s + of_nat k) mod kTaskTimestampFrequency = 0)"
    by (simp only: kTaskTimestampFrequency_def word_stamp_iff one_in_sixteen simp_thms)
  have 4: "length (filter (\<lambda>t. t \<noteq> 0) (take 16 (drop j (stamps ndebug xs s)))) = 1 \<and>
      length (filter (\<lambda>t. t = 0) (take 16 (drop j (stamps ndebug xs s)))) = 15"
    if j: "j + 16 \<le> length xs" and nz: "\<forall>x\<in>set xs. snd x \<noteq> 0" for j
  proof (rule window_count [where a = "unat (task_count s)"])
    show "j + 16 \<le> length (stamps ndebug xs s)" using j 1 by simp
  next
    show "\<forall>k<length (stamps ndebug xs s).
            (stamps ndebug xs s ! k \<noteq> 0) = ((unat (task_count s) + k) mod 16 = 0)"
    proof (intro allI impI)
      fix k assume "k < length (stamps ndebug xs s)"
      then have k: "k < length xs" using 1 by simp
      then have "snd (xs ! k) \<noteq> 0" using nz by simp
      moreover have "stamps ndebug xs s ! k =
          (if (task_count s + of_nat k) mod 16 = 0 then snd (xs ! k) else 0)"
        using sn k by simp
      ultimately show "(stamps ndebug xs s ! k \<noteq> 0) = ((unat (task_count s) + k) mod 16 = 0)"
        by (simp add: word_stamp_iff)
    qed
  qed
  from 1 2 3 4 show ?thesis by blast
qed

theorem Schedule_stamps_one_in_sixteen_witness:
  "length (filter (\<lambda>t. t \<noteq> 0)
     (take 16 (drop 0 (stamps False (replicate 16 (7, 5)) TaskProcessor_init)))) = 1 \<and>
   length (filter (\<lambda>t. t = 0)
     (take 16 (drop 0 (stamps False (replicate 16 (7, 5)) TaskProcessor_init)))) = 15 \<and>
   length (stamps False (replicate 16 (7, 5)) TaskProcessor_init) = 16"
proof -
  have h: "0 + 16 \<le> length (replicate 16 (7::nat, 5::int)) \<and>
           (\<forall>x\<in>set (replicate 16 (7::nat, 5::int)). snd x \<noteq> 0)"
    by simp
  from Schedule_stamps_one_in_sixteen [of False "replicate 16 (7, 5)" TaskProcessor_init]
  have "\<forall>j. j + 16 \<le> length (replicate 16 (7::nat, 5::int)) \<and>
            (\<forall>x\<in>set (replicate 16 (7::nat, 5::int)). snd x \<noteq> 0) \<longrightarrow>
      length (filter (\<lambda>t. t \<noteq> 0)
        (take 16 (drop j (stamps False (replicate 16 (7, 5)) TaskProcessor_init)))) = 1 \<and>
      length (filter (\<lambda>t. t = 0)
        (take 16 (drop j (stamps False (replicate 16 (7, 5)) TaskProcessor_init)))) = 15"
    and "length (stamps False (replicate 16 (7::nat, 5::int)) TaskProcessor_init) =
         length (replicate 16 (7::nat, 5::int))"
    by blast+
  with h show ?thesis by simp
qed

section \<open>WakeupOne\<close>

lemma waiters_append: "waiters (xs @ ys) = waiters xs @ waiters ys"
  by (induction xs rule: waiters.induct) simp_all

lemma waiters_replicate_None: "waiters (replicate n None) = []"
  by (induction n) simp_all

lemma WakeupOne_loop_eq:
  "WakeupOne_loop slots log =
     (drop 1 (dropWhile (\<lambda>p. p = None) slots),
      log @ map (\<lambda>c. Wakeup c kWaitList) (take 1 (waiters slots)))"
  by (induction slots rule: waiters.induct) simp_all

lemma waiters_after_WakeupOne:
  "waiters (drop 1 (dropWhile (\<lambda>p. p = None) slots)) = drop 1 (waiters slots)"
  by (induction slots rule: waiters.induct) simp_all

lemma dropWhile_replicate_None:
  "dropWhile (\<lambda>p. p = None) (replicate n None @ Some c # rest) = Some c # rest"
  by (induction n) simp_all

lemma WakeupOne_eq:
  assumes "ndebug \<or> lock"
  shows "WakeupOne ndebug lock wl =
     Inr \<lparr>waiting_contexts = drop 1 (dropWhile (\<lambda>p. p = None) (waiting_contexts wl)),
          wl_calls = wl_calls wl @
            map (\<lambda>c. Wakeup c kWaitList) (take 1 (waiters (waiting_contexts wl)))\<rparr>"
  using assms by (auto simp add: WakeupOne_def WakeupOne_loop_eq)

lemma WakeupOne_times_eq:
  assumes "ndebug \<or> lock"
  shows "\<exists>wl'. WakeupOne_times k ndebug lock wl = Inr wl' \<and>
     wl_calls wl' = wl_calls wl @
       map (\<lambda>c. Wakeup c kWaitList) (take k (waiters (waiting_contexts wl))) \<and>
     waiters (waiting_contexts wl') = drop k (waiters (waiting_contexts wl))"
proof (induction k arbitrary: wl)
  case 0
  show ?case by simp
next
  case (Suc k)
  let ?w = "\<lparr>waiting_contexts = drop 1 (dropWhile (\<lambda>p. p = None) (waiting_contexts wl)),
          wl_calls = wl_calls wl @
            map (\<lambda>c. Wakeup c kWaitList) (take 1 (waiters (waiting_contexts wl)))\<rparr>"
  obtain wl' where w: "WakeupOne_times k ndebug lock ?w = Inr wl'"
    "wl_calls wl' = wl_calls ?w @
       map (\<lambda>c. Wakeup c kWaitList) (take k (waiters (waiting_contexts ?w)))"
    "waiters (waiting_contexts wl') = drop k (waiters (waiting_contexts ?w))"
    using Suc.IH [of ?w] by blast
  have t: "take (Suc k) (waiters (waiting_contexts wl)) =
      take 1 (waiters (waiting_contexts wl)) @ take k (drop 1 (waiters (waiting_contexts wl)))"
    using take_add [of 1 k "waiters (waiting_contexts wl)"] by simp
  have "WakeupOne_times (Suc k) ndebug lock wl = Inr wl'"
    using w(1) by (simp add: WakeupOne_eq [OF assms])
  moreover have "wl_calls wl' = wl_calls wl @
       map (\<lambda>c. Wakeup c kWaitList) (take (Suc k) (waiters (waiting_contexts wl)))"
    unfolding t using w(2) by (simp add: waiters_after_WakeupOne [unfolded One_nat_def])
  moreover have "waiters (waiting_contexts wl') = drop (Suc k) (waiters (waiting_contexts wl))"
    using w(3) by (simp add: waiters_after_WakeupOne [unfolded One_nat_def])
  ultimately show ?case by blast
qed

text \<open>
  C7. For every wait-list state, called with the lock held (or with assertions compiled
  out): if the list is some empty slots, then a slot holding \<open>c\<close>, then \<open>rest\<close>,
  \<open>WakeupOne\<close> leaves \<open>rest\<close> and makes the one call \<open>Wakeup c kWaitList\<close>, so the
  empty slots before it are dropped without a wake-up; if all slots are empty it leaves
  the empty list and wakes nobody. \<open>Append\<close> puts a context behind all waiters, and
  \<open>k\<close> successive calls of \<open>WakeupOne\<close> wake the first \<open>k\<close> contexts of the non-empty
  slots in list order, and leave the others waiting in that order.
\<close>

theorem WakeupOne_wakes_first_waiter:
  "ndebug \<or> lock \<longrightarrow>
     (\<forall>n c rest. waiting_contexts wl = replicate n None @ Some c # rest \<longrightarrow>
        WakeupOne ndebug lock wl =
          Inr \<lparr>waiting_contexts = rest, wl_calls = wl_calls wl @ [Wakeup c kWaitList]\<rparr>) \<and>
     (\<forall>n. waiting_contexts wl = replicate n None \<longrightarrow>
        WakeupOne ndebug lock wl = Inr \<lparr>waiting_contexts = [], wl_calls = wl_calls wl\<rparr>) \<and>
     (\<forall>c. Append ndebug lock (Some c) wl =
             Inr (wl\<lparr>waiting_contexts := waiting_contexts wl @ [Some c]\<rparr>) \<and>
          waiters (waiting_contexts wl @ [Some c]) = waiters (waiting_contexts wl) @ [c]) \<and>
     (\<forall>k. \<exists>wl'. WakeupOne_times k ndebug lock wl = Inr wl' \<and>
        wl_calls wl' = wl_calls wl @
          map (\<lambda>c. Wakeup c kWaitList) (take k (waiters (waiting_contexts wl))) \<and>
        waiters (waiting_contexts wl') = drop k (waiters (waiting_contexts wl)))"
proof
  assume a: "ndebug \<or> lock"
  have 1: "\<forall>n c rest. waiting_contexts wl = replicate n None @ Some c # rest \<longrightarrow>
        WakeupOne ndebug lock wl =
          Inr \<lparr>waiting_contexts = rest, wl_calls = wl_calls wl @ [Wakeup c kWaitList]\<rparr>"
    by (simp add: WakeupOne_eq [OF a] dropWhile_replicate_None waiters_append
        waiters_replicate_None)
  have 2: "\<forall>n. waiting_contexts wl = replicate n None \<longrightarrow>
        WakeupOne ndebug lock wl = Inr \<lparr>waiting_contexts = [], wl_calls = wl_calls wl\<rparr>"
    by (simp add: WakeupOne_eq [OF a] waiters_replicate_None)
  have 3: "\<forall>c. Append ndebug lock (Some c) wl =
             Inr (wl\<lparr>waiting_contexts := waiting_contexts wl @ [Some c]\<rparr>) \<and>
          waiters (waiting_contexts wl @ [Some c]) = waiters (waiting_contexts wl) @ [c]"
    using a by (auto simp add: Append_def waiters_append)
  have 4: "\<forall>k. \<exists>wl'. WakeupOne_times k ndebug lock wl = Inr wl' \<and>
        wl_calls wl' = wl_calls wl @
          map (\<lambda>c. Wakeup c kWaitList) (take k (waiters (waiting_contexts wl))) \<and>
        waiters (waiting_contexts wl') = drop k (waiters (waiting_contexts wl))"
    using WakeupOne_times_eq [OF a] by blast
  from 1 2 3 4 show "(\<forall>n c rest. waiting_contexts wl = replicate n None @ Some c # rest \<longrightarrow>
        WakeupOne ndebug lock wl =
          Inr \<lparr>waiting_contexts = rest, wl_calls = wl_calls wl @ [Wakeup c kWaitList]\<rparr>) \<and>
     (\<forall>n. waiting_contexts wl = replicate n None \<longrightarrow>
        WakeupOne ndebug lock wl = Inr \<lparr>waiting_contexts = [], wl_calls = wl_calls wl\<rparr>) \<and>
     (\<forall>c. Append ndebug lock (Some c) wl =
             Inr (wl\<lparr>waiting_contexts := waiting_contexts wl @ [Some c]\<rparr>) \<and>
          waiters (waiting_contexts wl @ [Some c]) = waiters (waiting_contexts wl) @ [c]) \<and>
     (\<forall>k. \<exists>wl'. WakeupOne_times k ndebug lock wl = Inr wl' \<and>
        wl_calls wl' = wl_calls wl @
          map (\<lambda>c. Wakeup c kWaitList) (take k (waiters (waiting_contexts wl))) \<and>
        waiters (waiting_contexts wl') = drop k (waiters (waiting_contexts wl)))"
    by blast
qed

theorem WakeupOne_wakes_first_waiter_witness:
  "WakeupOne False True \<lparr>waiting_contexts = [None, Some 3, None, Some 5], wl_calls = []\<rparr> =
     Inr \<lparr>waiting_contexts = [None, Some 5], wl_calls = [Wakeup 3 kWaitList]\<rparr>"
proof -
  have "False \<or> True" by simp
  with WakeupOne_wakes_first_waiter
    [of False True "\<lparr>waiting_contexts = [None, Some 3, None, Some 5], wl_calls = []\<rparr>"]
  have "\<forall>n c rest.
      waiting_contexts \<lparr>waiting_contexts = [None, Some 3, None, Some 5], wl_calls = []\<rparr> =
        replicate n None @ Some c # rest \<longrightarrow>
      WakeupOne False True \<lparr>waiting_contexts = [None, Some 3, None, Some 5], wl_calls = []\<rparr> =
        Inr \<lparr>waiting_contexts = rest,
             wl_calls = wl_calls \<lparr>waiting_contexts = [None, Some 3, None, Some 5], wl_calls = []\<rparr> @
                          [Wakeup c kWaitList]\<rparr>"
    by blast
  from this [rule_format, of "Suc 0" 3 "[None, Some 5]"] show ?thesis by simp
qed

section \<open>WakeupAll\<close>

lemma WakeupAll_loop_eq:
  "WakeupAll_loop slots log = log @ map (\<lambda>c. Wakeup c kWaitList) (waiters slots)"
  by (induction slots arbitrary: log rule: waiters.induct) simp_all

lemma count_wakeups:
  "count_list (map (\<lambda>c. Wakeup c kWaitList) (waiters slots)) (Wakeup c kWaitList) =
     count_list slots (Some c)"
  by (induction slots rule: waiters.induct) simp_all

lemma length_waiters: "length (waiters slots) = length (filter (\<lambda>p. p \<noteq> None) slots)"
  by (induction slots rule: waiters.induct) simp_all

text \<open>
  C8. For every wait-list state, called with the lock held (or with assertions compiled
  out): \<open>WakeupAll\<close> makes one call \<open>Wakeup c kWaitList\<close> for each non-empty slot, in
  list order, and no other call, and leaves the list empty. There are as many wake-ups
  as non-empty slots, and a context is woken as many times as slots hold it: once, if
  one slot does.
\<close>

theorem WakeupAll_wakes_every_waiter:
  "ndebug \<or> lock \<longrightarrow>
     WakeupAll ndebug lock wl =
       Inr \<lparr>waiting_contexts = [],
            wl_calls = wl_calls wl @
              map (\<lambda>c. Wakeup c kWaitList) (waiters (waiting_contexts wl))\<rparr> \<and>
     length (waiters (waiting_contexts wl)) =
       length (filter (\<lambda>p. p \<noteq> None) (waiting_contexts wl)) \<and>
     (\<forall>c. count_list (map (\<lambda>c. Wakeup c kWaitList) (waiters (waiting_contexts wl)))
            (Wakeup c kWaitList) = count_list (waiting_contexts wl) (Some c))"
proof
  assume a: "ndebug \<or> lock"
  have "WakeupAll_loop (waiting_contexts wl) (wl_calls wl) =
      wl_calls wl @ map (\<lambda>c. Wakeup c kWaitList) (waiters (waiting_contexts wl))"
    by (rule WakeupAll_loop_eq)
  with a have r: "WakeupAll ndebug lock wl =
       Inr \<lparr>waiting_contexts = [],
            wl_calls = wl_calls wl @
              map (\<lambda>c. Wakeup c kWaitList) (waiters (waiting_contexts wl))\<rparr>"
    by (auto simp add: WakeupAll_def)
  have n: "length (waiters (waiting_contexts wl)) =
       length (filter (\<lambda>p. p \<noteq> None) (waiting_contexts wl))"
    by (rule length_waiters)
  have c: "\<forall>c. count_list (map (\<lambda>c. Wakeup c kWaitList) (waiters (waiting_contexts wl)))
            (Wakeup c kWaitList) = count_list (waiting_contexts wl) (Some c)"
    by (simp add: count_wakeups)
  from r n c show "WakeupAll ndebug lock wl =
       Inr \<lparr>waiting_contexts = [],
            wl_calls = wl_calls wl @
              map (\<lambda>c. Wakeup c kWaitList) (waiters (waiting_contexts wl))\<rparr> \<and>
     length (waiters (waiting_contexts wl)) =
       length (filter (\<lambda>p. p \<noteq> None) (waiting_contexts wl)) \<and>
     (\<forall>c. count_list (map (\<lambda>c. Wakeup c kWaitList) (waiters (waiting_contexts wl)))
            (Wakeup c kWaitList) = count_list (waiting_contexts wl) (Some c))"
    by blast
qed

theorem WakeupAll_wakes_every_waiter_witness:
  "WakeupAll False True
     \<lparr>waiting_contexts = [Some 1, None, Some 2, Some 3, None], wl_calls = []\<rparr> =
     Inr \<lparr>waiting_contexts = [],
          wl_calls = [Wakeup 1 kWaitList, Wakeup 2 kWaitList, Wakeup 3 kWaitList]\<rparr>"
  using WakeupAll_wakes_every_waiter
    [of False True "\<lparr>waiting_contexts = [Some 1, None, Some 2, Some 3, None], wl_calls = []\<rparr>"]
  by simp

section \<open>Remove\<close>

lemma std_find_le: "std_find xs v \<le> length xs"
  by (induction xs) simp_all

lemma std_find_end: "std_find xs v = length xs \<longleftrightarrow> v \<notin> set xs"
proof (induction xs)
  case Nil
  show ?case by simp
next
  case (Cons x xs)
  have "std_find xs v \<le> length xs" by (rule std_find_le)
  then show ?case using Cons.IH by auto
qed

lemma std_find_first:
  "v \<in> set xs \<Longrightarrow>
   std_find xs v < length xs \<and> xs ! std_find xs v = v \<and> (\<forall>j < std_find xs v. xs ! j \<noteq> v)"
proof (induction xs)
  case Nil
  then show ?case by simp
next
  case (Cons x xs)
  show ?case
  proof (cases "x = v")
    case True
    then show ?thesis by simp
  next
    case False
    with Cons.prems have "v \<in> set xs" by simp
    then have ih: "std_find xs v < length xs" "xs ! std_find xs v = v"
      "\<forall>j < std_find xs v. xs ! j \<noteq> v"
      using Cons.IH by blast+
    have "(x # xs) ! j \<noteq> v" if "j < Suc (std_find xs v)" for j
      using that False ih(3) by (cases j) simp_all
    with False ih(1,2) show ?thesis by simp
  qed
qed

lemma std_find_split:
  "v \<in> set xs \<Longrightarrow>
   xs = take (std_find xs v) xs @ v # drop (Suc (std_find xs v)) xs \<and>
   v \<notin> set (take (std_find xs v) xs)"
proof (induction xs)
  case Nil
  then show ?case by simp
next
  case (Cons x xs)
  show ?case
  proof (cases "x = v")
    case True
    then show ?thesis by simp
  next
    case False
    with Cons.prems have "v \<in> set xs" by simp
    then have "xs = take (std_find xs v) xs @ v # drop (Suc (std_find xs v)) xs"
      and "v \<notin> set (take (std_find xs v) xs)"
      using Cons.IH by blast+
    with False show ?thesis by simp
  qed
qed

lemma count_after_first:
  "v \<in> set xs \<Longrightarrow>
   count_list xs v = Suc (count_list (drop (Suc (std_find xs v)) xs) v)"
  by (induction xs) auto

lemma Remove_absent:
  "context \<notin> set (waiting_contexts wl) \<Longrightarrow> Remove ndebug context wl = Inr wl"
  by (simp add: Remove_def std_find_end)

lemma Remove_present:
  assumes "context \<in> set (waiting_contexts wl)"
  shows "Remove ndebug context wl =
     (if \<not> ndebug \<and> context \<in> set (drop (Suc (std_find (waiting_contexts wl) context))
                                        (waiting_contexts wl))
      then Inl AssertionFailed
      else Inr (wl\<lparr>waiting_contexts :=
                    (waiting_contexts wl)[std_find (waiting_contexts wl) context := None]\<rparr>))"
proof -
  let ?xs = "waiting_contexts wl"
  let ?i = "std_find ?xs context"
  have i: "?i \<noteq> length ?xs" using assms by (simp add: std_find_end)
  have "Suc ?i + std_find (drop (Suc ?i) ?xs) context \<noteq> length ?xs
          \<longleftrightarrow> context \<in> set (drop (Suc ?i) ?xs)"
  proof -
    have "?i < length ?xs" using std_find_first [OF assms] by simp
    then have "length (drop (Suc ?i) ?xs) = length ?xs - Suc ?i" "Suc ?i \<le> length ?xs"
      by simp_all
    then have "Suc ?i + std_find (drop (Suc ?i) ?xs) context = length ?xs
        \<longleftrightarrow> std_find (drop (Suc ?i) ?xs) context = length (drop (Suc ?i) ?xs)"
      by arith
    moreover have "std_find (drop (Suc ?i) ?xs) context = length (drop (Suc ?i) ?xs)
        \<longleftrightarrow> context \<notin> set (drop (Suc ?i) ?xs)"
      by (rule std_find_end)
    ultimately show ?thesis by blast
  qed
  then show ?thesis using i by (simp add: Remove_def Let_def)
qed

lemma list_update_at_first:
  assumes "v \<in> set xs"
  shows "xs[std_find xs v := w] =
     take (std_find xs v) xs @ w # drop (Suc (std_find xs v)) xs"
  using std_find_first [OF assms] by (simp add: upd_conv_take_nth_drop)

lemma Remove_effect:
  "(\<forall>wl'. Remove ndebug context wl = Inr wl' \<longrightarrow>
      length (waiting_contexts wl') = length (waiting_contexts wl) \<and>
      wl_calls wl' = wl_calls wl \<and>
      waiting_contexts wl' =
        (if context \<in> set (waiting_contexts wl)
         then (waiting_contexts wl)[std_find (waiting_contexts wl) context := None]
         else waiting_contexts wl) \<and>
      (\<forall>j < length (waiting_contexts wl). j \<noteq> std_find (waiting_contexts wl) context \<longrightarrow>
         waiting_contexts wl' ! j = waiting_contexts wl ! j)) \<and>
   (context \<in> set (waiting_contexts wl) \<longrightarrow>
      std_find (waiting_contexts wl) context < length (waiting_contexts wl) \<and>
      waiting_contexts wl ! std_find (waiting_contexts wl) context = context \<and>
      (\<forall>j < std_find (waiting_contexts wl) context. waiting_contexts wl ! j \<noteq> context)) \<and>
   (Remove ndebug context wl = Inl AssertionFailed \<longleftrightarrow>
      \<not> ndebug \<and> 2 \<le> count_list (waiting_contexts wl) context) \<and>
   (\<forall>c. context = Some c \<and> count_list (waiting_contexts wl) context \<le> 1 \<longrightarrow>
      (\<exists>wl'. Remove ndebug context wl = Inr wl' \<and> Some c \<notin> set (waiting_contexts wl')))"
proof (cases "context \<in> set (waiting_contexts wl)")
  case False
  then have "count_list (waiting_contexts wl) context = 0"
    by (simp add: count_list_0_iff)
  with False show ?thesis
    by (auto simp add: Remove_absent)
next
  case True
  let ?xs = "waiting_contexts wl"
  let ?i = "std_find ?xs context"
  note r = Remove_present [OF True, of ndebug]
  note f = std_find_first [OF True]
  have cnt: "count_list ?xs context = Suc (count_list (drop (Suc ?i) ?xs) context)"
    by (rule count_after_first [OF True])
  have later: "context \<in> set (drop (Suc ?i) ?xs) \<longleftrightarrow> 2 \<le> count_list ?xs context"
    unfolding cnt using count_list_0_iff [of "drop (Suc ?i) ?xs" "context"] by arith
  have 1: "\<forall>wl'. Remove ndebug context wl = Inr wl' \<longrightarrow>
      length (waiting_contexts wl') = length ?xs \<and>
      wl_calls wl' = wl_calls wl \<and>
      waiting_contexts wl' = (if context \<in> set ?xs then ?xs[?i := None] else ?xs) \<and>
      (\<forall>j < length ?xs. j \<noteq> ?i \<longrightarrow> waiting_contexts wl' ! j = ?xs ! j)"
    using True by (auto simp add: r split: if_splits)
  have 3: "Remove ndebug context wl = Inl AssertionFailed \<longleftrightarrow>
      \<not> ndebug \<and> 2 \<le> count_list ?xs context"
    unfolding later [symmetric] by (simp add: r)
  have 4: "\<exists>wl'. Remove ndebug context wl = Inr wl' \<and> Some c \<notin> set (waiting_contexts wl')"
    if c: "context = Some c" and le: "count_list ?xs context \<le> 1" for c
  proof -
    have nl: "context \<notin> set (drop (Suc ?i) ?xs)" using later le by simp
    have ne: "context \<notin> set (take ?i ?xs)" using std_find_split [OF True] by blast
    have "set (?xs[?i := None]) =
        set (take ?i ?xs) \<union> {None} \<union> set (drop (Suc ?i) ?xs)"
      by (simp add: list_update_at_first [OF True])
    with nl ne c have "Some c \<notin> set (?xs[?i := None])" by simp
    then show ?thesis using nl by (simp add: r)
  qed
  from 1 f 3 4 show ?thesis by blast
qed

lemma distinct_count_list: "distinct xs \<Longrightarrow> count_list xs c \<le> 1"
  by (induction xs) (auto simp add: count_list_0_iff)

lemma count_list_waiters: "count_list slots (Some c) = count_list (waiters slots) c"
  by (induction slots rule: waiters.induct) simp_all

text \<open>
  C9. For every wait-list state in which no context occupies two slots (the at-most-once
  occurrence that the closing assertion checks) and every context, with or without
  assertions: \<open>Remove\<close> returns, the list keeps its length and nobody is woken. If no
  slot holds the context nothing changes. Otherwise the first slot whose handle equals
  the context is reset to empty, and every other slot keeps its value and its place.
  Afterwards no slot equal to the context remains.
\<close>

theorem Remove_clears_first_slot:
  assumes "distinct (waiters (waiting_contexts wl))"
  shows "\<exists>wl'. Remove ndebug (Some c) wl = Inr wl' \<and>
     length (waiting_contexts wl') = length (waiting_contexts wl) \<and>
     wl_calls wl' = wl_calls wl \<and>
     Some c \<notin> set (waiting_contexts wl') \<and>
     (Some c \<notin> set (waiting_contexts wl) \<longrightarrow> wl' = wl) \<and>
     (Some c \<in> set (waiting_contexts wl) \<longrightarrow>
        (\<exists>i < length (waiting_contexts wl).
           waiting_contexts wl ! i = Some c \<and>
           (\<forall>j < i. waiting_contexts wl ! j \<noteq> Some c) \<and>
           waiting_contexts wl' = (waiting_contexts wl)[i := None] \<and>
           waiting_contexts wl' ! i = None \<and>
           (\<forall>j < length (waiting_contexts wl). j \<noteq> i \<longrightarrow>
              waiting_contexts wl' ! j = waiting_contexts wl ! j)))"
proof -
  let ?xs = "waiting_contexts wl"
  let ?i = "std_find ?xs (Some c)"
  have once: "count_list ?xs (Some c) \<le> 1"
    unfolding count_list_waiters by (rule distinct_count_list [OF assms])
  note e = Remove_effect [of ndebug "Some c" wl]
  from e once obtain wl' where r: "Remove ndebug (Some c) wl = Inr wl'"
    and gone: "Some c \<notin> set (waiting_contexts wl')"
    by blast
  from e r have len: "length (waiting_contexts wl') = length ?xs"
    and log: "wl_calls wl' = wl_calls wl"
    and upd: "waiting_contexts wl' = (if Some c \<in> set ?xs then ?xs[?i := None] else ?xs)"
    and others: "\<forall>j < length ?xs. j \<noteq> ?i \<longrightarrow> waiting_contexts wl' ! j = ?xs ! j"
    by blast+
  have absent: "wl' = wl" if "Some c \<notin> set ?xs"
    using r that by (simp add: Remove_absent)
  have present: "\<exists>i < length ?xs. ?xs ! i = Some c \<and> (\<forall>j < i. ?xs ! j \<noteq> Some c) \<and>
           waiting_contexts wl' = ?xs[i := None] \<and> waiting_contexts wl' ! i = None \<and>
           (\<forall>j < length ?xs. j \<noteq> i \<longrightarrow> waiting_contexts wl' ! j = ?xs ! j)"
    if p: "Some c \<in> set ?xs"
  proof (intro exI conjI)
    from e p show "?i < length ?xs" and "?xs ! ?i = Some c"
      and "\<forall>j < ?i. ?xs ! j \<noteq> Some c"
      by blast+
    then show "waiting_contexts wl' = ?xs[?i := None]"
      and "waiting_contexts wl' ! ?i = None"
      using upd p by simp_all
    show "\<forall>j < length ?xs. j \<noteq> ?i \<longrightarrow> waiting_contexts wl' ! j = ?xs ! j"
      by (rule others)
  qed
  from r len log gone absent present show ?thesis by blast
qed

theorem Remove_clears_first_slot_witness:
  "distinct (waiters (waiting_contexts
     \<lparr>waiting_contexts = [Some 1, None, Some 3, Some 5], wl_calls = []\<rparr>)) \<and>
   (\<exists>wl'. Remove False (Some 3) \<lparr>waiting_contexts = [Some 1, None, Some 3, Some 5], wl_calls = []\<rparr> =
           Inr wl' \<and>
         Some 3 \<notin> set (waiting_contexts wl') \<and>
         length (waiting_contexts wl') = 4 \<and> wl_calls wl' = [])"
proof -
  let ?wl = "\<lparr>waiting_contexts = [Some 1, None, Some (3::nat), Some 5], wl_calls = []\<rparr>"
  have d: "distinct (waiters (waiting_contexts ?wl))"
    by simp
  from Remove_clears_first_slot [OF d, of False 3]
  obtain wl' where "Remove False (Some 3) ?wl = Inr wl'"
    and "length (waiting_contexts wl') = length (waiting_contexts ?wl)"
    and "wl_calls wl' = wl_calls ?wl"
    and "Some 3 \<notin> set (waiting_contexts wl')"
    by blast
  with d show ?thesis by simp
qed

end
